theory Spec2Isabelle
  imports Complex_Main
begin

section \<open>JavaScript numbers\<close>

text \<open>
  The editor computes with JavaScript numbers, that is with binary64 values. A finite
  value is kept as the real number it denotes; the three non-finite results are kept
  too, since the pointer mapping of \<open>handleMove\<close> divides by a rectangle dimension
  that may be zero. \<open>Undefined\<close> is what reading an array slot that does not exist
  gives; arithmetic converts it to \<open>NaN\<close>. Signed zeros are not told apart: the only
  divisors are dimensions of a bounding rectangle, which are never \<open>-0\<close>.

  The operations \<open>js_add\<close>, \<open>js_sub\<close>, \<open>js_mul\<close> and \<open>js_div\<close> give the exact
  result. The statements about slicing use them: they are statements of exact
  arithmetic. The drag path is computed as the program computes it: each of its
  operations is the exact one followed by the rounding to binary64
  (\<open>js_add64\<close>, \<open>js_sub64\<close>, \<open>js_div64\<close>, further down).
\<close>

datatype jsval = Num real | PInf | NInf | NaN | Undefined

fun ToNumber :: "jsval \<Rightarrow> jsval" where
  "ToNumber Undefined = NaN"
| "ToNumber v = v"

fun js_neg :: "jsval \<Rightarrow> jsval" where
  "js_neg (Num a) = Num (- a)"
| "js_neg PInf = NInf"
| "js_neg NInf = PInf"
| "js_neg v = NaN"

fun num_add :: "jsval \<Rightarrow> jsval \<Rightarrow> jsval" where
  "num_add (Num a) (Num b) = Num (a + b)"
| "num_add NaN v = NaN"
| "num_add v NaN = NaN"
| "num_add Undefined v = NaN"
| "num_add v Undefined = NaN"
| "num_add PInf NInf = NaN"
| "num_add NInf PInf = NaN"
| "num_add PInf v = PInf"
| "num_add v PInf = PInf"
| "num_add NInf v = NInf"
| "num_add v NInf = NInf"

definition js_add :: "jsval \<Rightarrow> jsval \<Rightarrow> jsval" where
  "js_add a b = num_add (ToNumber a) (ToNumber b)"

definition js_sub :: "jsval \<Rightarrow> jsval \<Rightarrow> jsval" where
  "js_sub a b = num_add (ToNumber a) (js_neg (ToNumber b))"

text \<open>The sign of a number, as the product and the quotient need it.\<close>

fun js_sign :: "jsval \<Rightarrow> int option" where
  "js_sign (Num a) = Some (if a < 0 then -1 else if a = 0 then 0 else 1)"
| "js_sign PInf = Some 1"
| "js_sign NInf = Some (-1)"
| "js_sign v = None"

definition signed_inf :: "int \<Rightarrow> jsval" where
  "signed_inf s = (if s < 0 then NInf else if s = 0 then NaN else PInf)"

fun num_mul :: "jsval \<Rightarrow> jsval \<Rightarrow> jsval" where
  "num_mul (Num a) (Num b) = Num (a * b)"
| "num_mul a b =
     (case (js_sign a, js_sign b) of
        (Some s, Some t) \<Rightarrow> signed_inf (s * t)
      | _ \<Rightarrow> NaN)"

definition js_mul :: "jsval \<Rightarrow> jsval \<Rightarrow> jsval" where
  "js_mul a b = num_mul (ToNumber a) (ToNumber b)"



text \<open>\<open>a <= b\<close>: false as soon as one side is \<open>NaN\<close>.\<close>

fun num_le :: "jsval \<Rightarrow> jsval \<Rightarrow> bool" where
  "num_le (Num a) (Num b) = (a \<le> b)"
| "num_le NaN v = False"
| "num_le v NaN = False"
| "num_le Undefined v = False"
| "num_le v Undefined = False"
| "num_le NInf v = True"
| "num_le v PInf = True"
| "num_le v w = False"

definition js_le :: "jsval \<Rightarrow> jsval \<Rightarrow> bool" where
  "js_le a b = num_le (ToNumber a) (ToNumber b)"



subsection \<open>Rounding to binary64\<close>

text \<open>Rounding to the nearest integer, a tie going to the even one.\<close>

definition round_even :: "real \<Rightarrow> int" where
  "round_even y =
     (let n = \<lfloor>y\<rfloor>
      in if y - of_int n < 1 / 2 then n
         else if 1 / 2 < y - of_int n then n + 1
         else if even n then n else n + 1)"

text \<open>
  The binade of a magnitude: the power of two \<open>b\<close> with \<open>b \<le> x < 2 * b\<close>, searched
  downwards from \<open>1/2\<close> or upwards from \<open>1\<close>. The search stops at the least normal
  binade \<open>2^-1022\<close> (below it the values are subnormal and share its spacing) and at
  the greatest one \<open>2^1023\<close>.
\<close>

fun binade_down :: "nat \<Rightarrow> real \<Rightarrow> real \<Rightarrow> real" where
  "binade_down 0 b x = b"
| "binade_down (Suc k) b x = (if b \<le> x then b else binade_down k (b / 2) x)"

fun binade_up :: "nat \<Rightarrow> real \<Rightarrow> real \<Rightarrow> real" where
  "binade_up 0 b x = b"
| "binade_up (Suc k) b x = (if x < 2 * b then b else binade_up k (2 * b) x)"

definition binade :: "real \<Rightarrow> real" where
  "binade x = (if 1 \<le> \<bar>x\<bar> then binade_up 1023 1 \<bar>x\<bar> else binade_down 1021 (1 / 2) \<bar>x\<bar>)"

text \<open>The spacing of the binary64 values around \<open>x\<close>: 52 fraction bits.\<close>

definition ulp :: "real \<Rightarrow> real" where
  "ulp x = binade x / 2 ^ 52"

text \<open>Round to nearest, ties to even, with the exponent not yet bounded above.\<close>

definition fl :: "real \<Rightarrow> real" where
  "fl x = of_int (round_even (x / ulp x)) * ulp x"

text \<open>
  The binary64 value of an exact result: a finite result is rounded, and overflows to
  an infinity when the rounded magnitude reaches \<open>2^1024\<close>.
\<close>

fun binary64 :: "jsval \<Rightarrow> jsval" where
  "binary64 (Num x) =
     (if 2 ^ 1024 \<le> \<bar>fl x\<bar> then (if x < 0 then NInf else PInf) else Num (fl x))"
| "binary64 v = v"

definition js_add64 :: "jsval \<Rightarrow> jsval \<Rightarrow> jsval" where
  "js_add64 a b = binary64 (js_add a b)"

definition js_sub64 :: "jsval \<Rightarrow> jsval \<Rightarrow> jsval" where
  "js_sub64 a b = binary64 (js_sub a b)"


text \<open>A value a JavaScript number can be: a finite one is a fixed point of the rounding.\<close>

fun is_binary64 :: "jsval \<Rightarrow> bool" where
  "is_binary64 (Num x) = (fl x = x \<and> \<bar>x\<bar> < 2 ^ 1024)"
| "is_binary64 v = True"


subsection \<open>Arrays\<close>

text \<open>\<open>xs[i]\<close>: \<open>undefined\<close> outside the array.\<close>

definition js_index :: "jsval list \<Rightarrow> int \<Rightarrow> jsval" where
  "js_index xs i = (if 0 \<le> i \<and> i < int (length xs) then xs ! nat i else Undefined)"


section \<open>The data of the editor\<close>

datatype SplitDirection = HORIZONTAL | VERTICAL

record SplitResult =
  id_result :: nat
  dataUrl :: string
  width :: jsval
  height :: jsval

text \<open>
  The state of \<open>ImageEditor\<close>: the three \<open>useState\<close> cells. \<open>activeDragIndex\<close> is
  \<open>number | null\<close>; the numbers it holds are array indices, hence integers.
\<close>

record editor =
  cuts :: "jsval list"
  direction :: SplitDirection
  activeDragIndex :: "int option"

text \<open>What \<open>App\<close> holds and hands to the editor through its two callbacks.\<close>

record app =
  results :: "SplitResult list"
  isProcessing :: bool

definition initial_cuts :: "jsval list" where
  "initial_cuts = [Num 0.25, Num 0.50, Num 0.75]"

definition initial_editor :: editor where
  "initial_editor = \<lparr>cuts = initial_cuts, direction = VERTICAL, activeDragIndex = None\<rparr>"

text \<open>
  The gap invariant of the cut list: three finite values, the first at least \<open>0.05\<close>,
  each at least \<open>0.05\<close> above the one before, the last at most \<open>1 - 0.05\<close>.
\<close>

fun gap_invariant :: "jsval list \<Rightarrow> bool" where
  "gap_invariant [Num a, Num b, Num c] =
     (0.05 \<le> a \<and> a + 0.05 \<le> b \<and> b + 0.05 \<le> c \<and> c \<le> 1 - 0.05)"
| "gap_invariant cs = False"

text \<open>
  The gap invariant up to \<open>e\<close>: three finite values, and each of the four
  inequalities may fail by at most \<open>e\<close>.
\<close>

fun gap_invariant_within :: "real \<Rightarrow> jsval list \<Rightarrow> bool" where
  "gap_invariant_within e [Num a, Num b, Num c] =
     (0.05 - e \<le> a \<and> a + 0.05 - e \<le> b \<and> b + 0.05 - e \<le> c \<and> c \<le> 1 - 0.05 + e)"
| "gap_invariant_within e cs = False"

section \<open>Dragging\<close>

definition handleDragStart :: "int \<Rightarrow> editor \<Rightarrow> editor" where
  "handleDragStart index s = s\<lparr>activeDragIndex := Some index\<rparr>"

definition handleDragEnd :: "editor \<Rightarrow> editor" where
  "handleDragEnd s = s\<lparr>activeDragIndex := None\<rparr>"

text \<open>The literal \<open>0.05\<close>: the binary64 value nearest to one twentieth.\<close>

definition padding :: jsval where
  "padding = binary64 (Num 0.05)"

text \<open>The real number that value is.\<close>

definition pad :: real where
  "pad = fl 0.05"

text \<open>
  \<open>handleMove\<close> is modelled in three parts, in the order of its body: the fraction
  of the pointer (\<open>pointer_fraction\<close>, below), the two limits \<open>prevLimit\<close> and
  \<open>nextLimit\<close>, and the clamp with the store. The specification names the last two
  parts \<open>computeBounds\<close> and \<open>setCut\<close>. The limits are computed from the cut list
  the callback closes over. Every sum, difference and quotient is a binary64 one;
  \<open>Math.max\<close> and \<open>Math.min\<close> return one of their arguments and do not round.
\<close>

definition computeBounds :: "jsval list \<Rightarrow> int \<Rightarrow> jsval \<times> jsval" where
  "computeBounds cs activeIndex =
     (let prevLimit = (if activeIndex > 0 then js_add64 (js_index cs (activeIndex - 1)) padding
                       else js_add64 (Num 0) padding);
          nextLimit = (if activeIndex < int (length cs) - 1
                       then js_sub64 (js_index cs (activeIndex + 1)) padding
                       else js_sub64 (Num 1) padding)
      in (prevLimit, nextLimit))"





section \<open>Slicing\<close>

text \<open>
  What the slicer reads of the \<open>img\<close> element: its natural size (as the loop reads
  it, that is once the image has loaded), whether it had loaded when the pass began,
  and its pixels. The pixels are only ever read through the canvas, so they appear
  as \<open>png\<close>: the data URL the canvas gives after the region \<open>(sx, sy, sw, sh)\<close> of
  this image has been drawn on it.
\<close>

type_synonym rect = "jsval \<times> jsval \<times> jsval \<times> jsval"

record HTMLImageElement =
  naturalWidth :: nat
  naturalHeight :: nat
  complete :: bool
  png :: "rect \<Rightarrow> string"

text \<open>
  \<open>sort((a, b) => a - b)\<close>. The language moves \<open>undefined\<close> to the end without
  comparing it, and reads a \<open>NaN\<close> from the comparator as \<open>0\<close>. On values whose
  differences are never \<open>NaN\<close> the comparator is a total preorder and every sorting
  algorithm returns the same list; the insertion sort below is that list. With a
  \<open>NaN\<close> among the values the language leaves the order to the implementation, and
  no statement below concerns that case.
\<close>

definition SortCompare :: "jsval \<Rightarrow> jsval \<Rightarrow> real" where
  "SortCompare x y =
     (case js_sub x y of Num v \<Rightarrow> v | PInf \<Rightarrow> 1 | NInf \<Rightarrow> - 1 | _ \<Rightarrow> 0)"

fun js_insort :: "jsval \<Rightarrow> jsval list \<Rightarrow> jsval list" where
  "js_insort x [] = [x]"
| "js_insort x (y # ys) =
     (if SortCompare x y \<le> 0 then x # y # ys else y # js_insort x ys)"

definition js_sort :: "jsval list \<Rightarrow> jsval list" where
  "js_sort xs =
     foldr js_insort (filter (\<lambda>v. v \<noteq> Undefined) xs) []
       @ filter (\<lambda>v. v = Undefined) xs"

text \<open>The rectangle of one segment: the body of the loop up to the size test.\<close>

definition slice_rect :: "SplitDirection \<Rightarrow> HTMLImageElement \<Rightarrow> jsval \<Rightarrow> jsval \<Rightarrow> rect" where
  "slice_rect d img startPct endPct =
     (let sizePct = js_sub endPct startPct
      in if d = VERTICAL
         then (js_mul (Num (real (naturalWidth img))) startPct, Num 0,
               js_mul (Num (real (naturalWidth img))) sizePct, Num (real (naturalHeight img)))
         else (Num 0, js_mul (Num (real (naturalHeight img))) startPct,
               Num (real (naturalWidth img)), js_mul (Num (real (naturalHeight img))) sizePct))"

text \<open>
  The loop over \<open>sortedCuts\<close>, at index \<open>i\<close> with \<open>sortedCuts[i]\<close> and
  \<open>sortedCuts[i + 1]\<close> the first two elements of the list that is left. Each segment
  that passes the size test is drawn (the rectangle) and pushed (the result).
\<close>

fun slice_loop ::
  "SplitDirection \<Rightarrow> HTMLImageElement \<Rightarrow> nat \<Rightarrow> jsval list \<Rightarrow> (rect \<times> SplitResult) list" where
  "slice_loop d img i (startPct # endPct # rest) =
     (case slice_rect d img startPct endPct of
        (sx, sy, sw, sh) \<Rightarrow>
          if js_le sw (Num 0) \<or> js_le sh (Num 0)
          then slice_loop d img (i + 1) (endPct # rest)
          else ((sx, sy, sw, sh),
                \<lparr>id_result = i, dataUrl = png img (sx, sy, sw, sh), width = sw, height = sh\<rparr>)
               # slice_loop d img (i + 1) (endPct # rest))"
| "slice_loop d img i rest = []"

definition sortedCuts :: "jsval list \<Rightarrow> jsval list" where
  "sortedCuts cs = js_sort (Num 0 # cs @ [Num 1])"

definition slices :: "HTMLImageElement \<Rightarrow> editor \<Rightarrow> (rect \<times> SplitResult) list" where
  "slices img s = slice_loop (direction s) img 0 (sortedCuts (cuts s))"

text \<open>The rectangles passed to \<open>drawImage\<close>, and the results pushed, in order.\<close>

definition drawn :: "HTMLImageElement \<Rightarrow> editor \<Rightarrow> rect list" where
  "drawn img s = map fst (slices img s)"

definition newResults :: "HTMLImageElement \<Rightarrow> editor \<Rightarrow> SplitResult list" where
  "newResults img s = map snd (slices img s)"

text \<open>
  What a pass of \<open>generateSlices\<close> does to the outside, in order: calls of
  \<open>setIsProcessing\<close> and of \<open>onResultsGenerated\<close>, and the point where it waits for
  the image to load. \<open>imageRef\<close> is \<open>None\<close> while no image element is mounted;
  \<open>ctx\<close> tells whether \<open>getContext('2d')\<close> returned a context.
\<close>

datatype effect = SetIsProcessing bool | AwaitLoad | ResultsGenerated "SplitResult list"

definition generateSlices :: "HTMLImageElement option \<Rightarrow> bool \<Rightarrow> editor \<Rightarrow> effect list" where
  "generateSlices imageRef ctx s =
     (case imageRef of
        None \<Rightarrow> []
      | Some img \<Rightarrow>
          SetIsProcessing True #
          (if \<not> ctx then [SetIsProcessing False]
           else (if \<not> complete img then [AwaitLoad] else [])
                @ [ResultsGenerated (newResults img s), SetIsProcessing False]))"

text \<open>The callbacks as \<open>App\<close> binds them: \<open>setIsProcessing\<close> and \<open>setResults\<close>.\<close>

fun perform :: "effect \<Rightarrow> app \<Rightarrow> app" where
  "perform (SetIsProcessing b) a = a\<lparr>isProcessing := b\<rparr>"
| "perform AwaitLoad a = a"
| "perform (ResultsGenerated rs) a = a\<lparr>results := rs\<rparr>"

definition run :: "effect list \<Rightarrow> app \<Rightarrow> app" where
  "run es a = fold perform es a"

section \<open>Changing the direction\<close>

definition handleDirectionChange :: "SplitDirection \<Rightarrow> editor \<times> app \<Rightarrow> editor \<times> app" where
  "handleDirectionChange newDirection st =
     (case st of
        (s, a) \<Rightarrow>
          (s\<lparr>direction := newDirection, cuts := [Num 0.25, Num 0.50, Num 0.75]\<rparr>,
           perform (ResultsGenerated []) a))"

section \<open>Notions used in the statements\<close>

text \<open>The results of a pass with the rectangle each was drawn from, by result index.\<close>

definition indexed :: "(rect \<times> SplitResult) list \<Rightarrow> (nat \<times> rect) list" where
  "indexed ps = map (\<lambda>p. (id_result (snd p), fst p)) ps"

text \<open>The length of the image along the split axis.\<close>

definition axis_length :: "SplitDirection \<Rightarrow> HTMLImageElement \<Rightarrow> real" where
  "axis_length d img =
     (if d = VERTICAL then real (naturalWidth img) else real (naturalHeight img))"

text \<open>
  A span is a start and a size along the split axis. Its rectangle runs over the whole
  image in the other direction.
\<close>

definition rect_of_span :: "SplitDirection \<Rightarrow> HTMLImageElement \<Rightarrow> real \<times> real \<Rightarrow> rect" where
  "rect_of_span d img sp =
     (if d = VERTICAL then (Num (fst sp), Num 0, Num (snd sp), Num (real (naturalHeight img)))
      else (Num 0, Num (fst sp), Num (real (naturalWidth img)), Num (snd sp)))"

text \<open>
  \<open>tiles a spans b\<close>: the spans cover the interval from \<open>a\<close> to \<open>b\<close> one after the
  other: the first starts at \<open>a\<close>, each has a positive size, each next one starts
  where the one before ends, and the last ends at \<open>b\<close>.
\<close>

fun tiles :: "real \<Rightarrow> (real \<times> real) list \<Rightarrow> real \<Rightarrow> bool" where
  "tiles a [] b = (a = b)"
| "tiles a ((p, w) # rs) b = (p = a \<and> 0 < w \<and> tiles (p + w) rs b)"

text \<open>The size test of the loop on two finite boundaries, read positively.\<close>

definition emits :: "SplitDirection \<Rightarrow> HTMLImageElement \<Rightarrow> real \<Rightarrow> real \<Rightarrow> bool" where
  "emits d img x y =
     (if d = VERTICAL then 0 < real (naturalWidth img) * (y - x) \<and> 0 < naturalHeight img
      else 0 < naturalWidth img \<and> 0 < real (naturalHeight img) * (y - x))"

text \<open>The spans of the segments that pass the size test, for finite boundaries.\<close>

fun segments :: "SplitDirection \<Rightarrow> HTMLImageElement \<Rightarrow> real list \<Rightarrow> (real \<times> real) list" where
  "segments d img (x # y # rest) =
     (if emits d img x y
      then (axis_length d img * x, axis_length d img * (y - x)) # segments d img (y # rest)
      else segments d img (y # rest))"
| "segments d img rest = []"



text \<open>Sample data for the concrete statements.\<close>

definition sample_image :: HTMLImageElement where
  "sample_image = \<lparr>naturalWidth = 400, naturalHeight = 200, complete = True, png = (\<lambda>r. [])\<rparr>"

definition doubled_cut :: editor where
  "doubled_cut =
     \<lparr>cuts = [Num 0.5, Num 0.5, Num 0.75], direction = VERTICAL, activeDragIndex = None\<rparr>"

definition prior_result :: SplitResult where
  "prior_result =
     \<lparr>id_result = 0, dataUrl = ''data:image/png'', width = Num 100, height = Num 200\<rparr>"



section \<open>Changing the direction resets the editor\<close>

text \<open>
  C5. Whatever the direction, the cuts and the exposed results are, and whether or not
  the new direction differs from the current one, \<open>handleDirectionChange\<close> makes the
  new direction current, sets the cuts to \<open>0.25, 0.50, 0.75\<close> and empties the exposed
  result list; the drag in progress and the processing flag are left as they are.
\<close>

theorem handleDirectionChange_resets:
  "direction (fst (handleDirectionChange newDirection (s, a))) = newDirection
   \<and> cuts (fst (handleDirectionChange newDirection (s, a))) = [Num 0.25, Num 0.50, Num 0.75]
   \<and> results (snd (handleDirectionChange newDirection (s, a))) = []
   \<and> activeDragIndex (fst (handleDirectionChange newDirection (s, a))) = activeDragIndex s
   \<and> isProcessing (snd (handleDirectionChange newDirection (s, a))) = isProcessing a"
  by (simp add: handleDirectionChange_def)

section \<open>Starting a drag\<close>

text \<open>
  C7, as the specification states it, fails: \<open>handleDragStart\<close> has no range check.
  Called with the index 5 on the initial editor it records 5 as the active index, so
  the state has changed and a drag is in progress.
\<close>

theorem handleDragStart_out_of_range:
  "handleDragStart 5 initial_editor
     = \<lparr>cuts = initial_cuts, direction = VERTICAL, activeDragIndex = Some 5\<rparr>
   \<and> handleDragStart 5 initial_editor \<noteq> initial_editor"
  by (simp add: handleDragStart_def initial_editor_def)

text \<open>
  C7, amended. For every index, inside or outside 0..2, \<open>handleDragStart\<close> records
  that index as the active one and changes neither the cuts nor the direction.
\<close>

theorem handleDragStart_any_index:
  "activeDragIndex (handleDragStart index s) = Some index
   \<and> cuts (handleDragStart index s) = cuts s
   \<and> direction (handleDragStart index s) = direction s"
  by (simp add: handleDragStart_def)

section \<open>A pass without a drawing context\<close>

lemma generateSlices_no_context:
  "generateSlices (Some img) False s = [SetIsProcessing True, SetIsProcessing False]"
  by (simp add: generateSlices_def)

text \<open>
  C8, as the specification states it, fails: nothing is reported. With no context the
  pass only raises and lowers the processing flag; an application that showed one
  earlier result and was not processing is in exactly the same state afterwards, the
  earlier result still exposed.
\<close>

theorem no_context_silent:
  "generateSlices (Some sample_image) False initial_editor
     = [SetIsProcessing True, SetIsProcessing False]
   \<and> run (generateSlices (Some sample_image) False initial_editor)
        \<lparr>results = [prior_result], isProcessing = False\<rparr>
     = \<lparr>results = [prior_result], isProcessing = False\<rparr>"
  by (simp add: generateSlices_no_context run_def)

text \<open>
  C8, amended. With an image mounted and no context, the pass raises the processing
  flag, lowers it and stops: \<open>onResultsGenerated\<close> is never called, so no result,
  partial or not, is emitted, and the application is left with the results it had
  and the flag down.
\<close>

theorem no_context_aborts:
  "generateSlices (Some img) False s = [SetIsProcessing True, SetIsProcessing False]
   \<and> (\<forall>rs. ResultsGenerated rs \<notin> set (generateSlices (Some img) False s))
   \<and> run (generateSlices (Some img) False s) a = a\<lparr>isProcessing := False\<rparr>"
  by (simp add: generateSlices_no_context run_def)

section \<open>The rectangles depend on the direction, the cuts and the size only\<close>

lemma slice_rect_size:
  assumes "naturalWidth i1 = naturalWidth i2" and "naturalHeight i1 = naturalHeight i2"
  shows "slice_rect d i1 x y = slice_rect d i2 x y"
  using assms by (cases d) (simp_all add: slice_rect_def Let_def)

lemma slice_loop_size:
  "naturalWidth i1 = naturalWidth i2 \<Longrightarrow> naturalHeight i1 = naturalHeight i2 \<Longrightarrow>
   indexed (slice_loop d i1 n xs) = indexed (slice_loop d i2 n xs)"
proof (induction d i1 n xs rule: slice_loop.induct)
  case (1 d img i startPct endPct rest)
  obtain sx sy sw sh where r: "slice_rect d img startPct endPct = (sx, sy, sw, sh)"
    by (cases "slice_rect d img startPct endPct")
  then have r2: "slice_rect d i2 startPct endPct = (sx, sy, sw, sh)"
    using slice_rect_size [OF "1.prems"] by simp
  show ?case
    using 1 r r2 by (auto simp add: indexed_def)
qed (simp_all add: indexed_def)

text \<open>
  C9. Two passes whose editors agree on the direction and on the cuts, over images of
  the same natural width and height, draw the same rectangle \<open>(sx, sy, sw, sh)\<close> for
  each result index, whatever else differs (the pixels, whether the image had already
  loaded, the drag in progress).
\<close>

theorem rectangles_depend_on_size_only:
  assumes "direction s1 = direction s2" and "cuts s1 = cuts s2"
    and "naturalWidth i1 = naturalWidth i2" and "naturalHeight i1 = naturalHeight i2"
  shows "indexed (slices i1 s1) = indexed (slices i2 s2)"
  using assms slice_loop_size [OF assms(3,4)] by (simp add: slices_def)

theorem rectangles_depend_on_size_only_witness:
  "direction initial_editor = direction (handleDragStart 1 initial_editor)
   \<and> cuts initial_editor = cuts (handleDragStart 1 initial_editor)
   \<and> naturalWidth sample_image
        = naturalWidth (sample_image\<lparr>complete := False, png := (\<lambda>r. ''x'')\<rparr>)
   \<and> naturalHeight sample_image
        = naturalHeight (sample_image\<lparr>complete := False, png := (\<lambda>r. ''x'')\<rparr>)
   \<and> indexed (slices sample_image initial_editor)
        = indexed (slices (sample_image\<lparr>complete := False, png := (\<lambda>r. ''x'')\<rparr>)
            (handleDragStart 1 initial_editor))"
  using rectangles_depend_on_size_only [of initial_editor "handleDragStart 1 initial_editor"
      sample_image "sample_image\<lparr>complete := False, png := (\<lambda>r. ''x'')\<rparr>"]
  by (simp add: handleDragStart_def)

section \<open>The default cuts on a 400 by 200 image\<close>

text \<open>
  C2. With the cuts \<open>0.25, 0.5, 0.75\<close> on an image 400 wide and 200 high, the pass
  draws four rectangles, with result indices 0 to 3 in this order: for the direction
  \<open>VERTICAL\<close> (cuts across the width) \<open>(0,0,100,200)\<close>, \<open>(100,0,100,200)\<close>,
  \<open>(200,0,100,200)\<close>, \<open>(300,0,100,200)\<close>; for \<open>HORIZONTAL\<close> \<open>(0,0,400,50)\<close>,
  \<open>(0,50,400,50)\<close>, \<open>(0,100,400,50)\<close>, \<open>(0,150,400,50)\<close>.
\<close>

theorem default_cuts_rectangles:
  "indexed (slices \<lparr>naturalWidth = 400, naturalHeight = 200, complete = c, png = p\<rparr>
       \<lparr>cuts = [Num 0.25, Num 0.5, Num 0.75], direction = VERTICAL, activeDragIndex = a\<rparr>) =
     [(0, (Num 0, Num 0, Num 100, Num 200)), (1, (Num 100, Num 0, Num 100, Num 200)),
      (2, (Num 200, Num 0, Num 100, Num 200)), (3, (Num 300, Num 0, Num 100, Num 200))]
   \<and> indexed (slices \<lparr>naturalWidth = 400, naturalHeight = 200, complete = c, png = p\<rparr>
       \<lparr>cuts = [Num 0.25, Num 0.5, Num 0.75], direction = HORIZONTAL, activeDragIndex = a\<rparr>) =
     [(0, (Num 0, Num 0, Num 400, Num 50)), (1, (Num 0, Num 50, Num 400, Num 50)),
      (2, (Num 0, Num 100, Num 400, Num 50)), (3, (Num 0, Num 150, Num 400, Num 50))]"
  by (simp add: indexed_def slices_def sortedCuts_def js_sort_def SortCompare_def
      slice_rect_def js_sub_def js_mul_def js_le_def)

section \<open>The loop over finite boundaries\<close>

lemma js_insort_Num: "js_insort (Num x) (map Num ys) = map Num (insort x ys)"
  by (induction ys) (simp_all add: SortCompare_def js_sub_def)

lemma foldr_js_insort_Num: "foldr js_insort (map Num xs) [] = map Num (sort xs)"
  by (induction xs) (simp_all add: js_insort_Num sort_key_def)

lemma js_sort_Num: "js_sort (map Num xs) = map Num (sort xs)"
proof -
  have "filter (\<lambda>v. v \<noteq> Undefined) (map Num xs) = map Num xs"
    by (induction xs) simp_all
  moreover have "filter (\<lambda>v. v = Undefined) (map Num xs) = []"
    by (induction xs) simp_all
  ultimately show ?thesis
    by (simp add: js_sort_def foldr_js_insort_Num)
qed

lemma sortedCuts_Num: "sortedCuts (map Num xs) = map Num (sort (0 # xs @ [1]))"
  using js_sort_Num [of "0 # xs @ [1]"] by (simp add: sortedCuts_def)

lemma slice_rect_Num:
  "slice_rect d img (Num x) (Num y) =
     rect_of_span d img (axis_length d img * x, axis_length d img * (y - x))"
  by (cases d)
    (simp_all add: slice_rect_def rect_of_span_def axis_length_def js_sub_def js_mul_def)

lemma skip_iff:
  assumes "rect_of_span d img (axis_length d img * x, axis_length d img * (y - x))
             = (sx, sy, sw, sh)"
  shows "(js_le sw (Num 0) \<or> js_le sh (Num 0)) \<longleftrightarrow> \<not> emits d img x y"
  using assms
  by (cases d) (auto simp add: rect_of_span_def axis_length_def emits_def js_le_def)

lemma slice_loop_step:
  "slice_loop d img i (Num x # Num y # rest) =
     (if emits d img x y
      then (rect_of_span d img (axis_length d img * x, axis_length d img * (y - x)),
            \<lparr>id_result = i,
             dataUrl = png img
               (rect_of_span d img (axis_length d img * x, axis_length d img * (y - x))),
             width = fst (snd (snd
               (rect_of_span d img (axis_length d img * x, axis_length d img * (y - x))))),
             height = snd (snd (snd
               (rect_of_span d img (axis_length d img * x, axis_length d img * (y - x)))))\<rparr>)
           # slice_loop d img (Suc i) (Num y # rest)
      else slice_loop d img (Suc i) (Num y # rest))"
proof -
  obtain sx sy sw sh where
    r: "rect_of_span d img (axis_length d img * x, axis_length d img * (y - x))
          = (sx, sy, sw, sh)"
    by (cases "rect_of_span d img (axis_length d img * x, axis_length d img * (y - x))")
  show ?thesis
    using skip_iff [OF r] by (simp add: slice_rect_Num r)
qed

lemma slice_loop_segments:
  "map fst (slice_loop d img i (map Num ys)) = map (rect_of_span d img) (segments d img ys)"
proof (induction ys arbitrary: i rule: induct_list012)
  case (3 x y zs)
  then show ?case
    by (simp add: slice_loop_step del: slice_loop.simps)
qed simp_all

lemma slice_loop_ids:
  "map (\<lambda>p. id_result (snd p)) (slice_loop d img i (map Num ys)) =
     map (\<lambda>k. i + k) (filter (\<lambda>k. emits d img (ys ! k) (ys ! Suc k)) [0..<length ys - 1])"
proof (induction ys arbitrary: i rule: induct_list012)
  case (3 x y zs)
  have upt: "[0..<Suc (length zs)] = 0 # map Suc [0..<length zs]"
    by (simp add: upt_conv_Cons map_Suc_upt del: upt_Suc)
  show ?case
    using 3(2) [of "Suc i"]
    by (simp add: slice_loop_step upt filter_map comp_def del: upt_Suc slice_loop.simps)
qed simp_all

lemma not_emits:
  assumes "y - x \<le> 0"
  shows "\<not> emits d img x y"
proof -
  have "real n * (y - x) \<le> 0" for n :: nat
    using assms by (simp add: mult_nonneg_nonpos)
  then show ?thesis
    by (cases d) (simp_all add: emits_def not_less)
qed

lemma emits_positive:
  assumes "0 < y - x" and "0 < naturalWidth img" and "0 < naturalHeight img"
  shows "emits d img x y"
  using assms by (cases d) (simp_all add: emits_def)

lemma emits_iff_less:
  assumes "0 < naturalWidth img" and "0 < naturalHeight img"
  shows "emits d img x y \<longleftrightarrow> x < y"
  using assms by (cases d) (simp_all add: emits_def zero_less_mult_iff)

section \<open>The rectangles tile the axis\<close>

lemma tiles_sum: "tiles a rs b \<Longrightarrow> sum_list (map snd rs) = b - a"
  by (induction a rs b rule: tiles.induct) auto

lemma tiles_start_ge: "tiles a rs b \<Longrightarrow> j < length rs \<Longrightarrow> a \<le> fst (rs ! j)"
proof (induction a rs b arbitrary: j rule: tiles.induct)
  case (2 a p w rs b)
  from "2.prems"(1) have p: "p = a" and w: "0 < w" and t: "tiles (p + w) rs b"
    by auto
  show ?case
  proof (cases j)
    case 0
    with p show ?thesis by simp
  next
    case (Suc j')
    with "2.prems" have "j' < length rs" by simp
    from "2.IH" [OF t this] have "p + w \<le> fst (rs ! j')" .
    with p w Suc show ?thesis by simp
  qed
qed simp

lemma tiles_no_overlap:
  "tiles a rs b \<Longrightarrow> i < j \<Longrightarrow> j < length rs \<Longrightarrow> fst (rs ! i) + snd (rs ! i) \<le> fst (rs ! j)"
proof (induction a rs b arbitrary: i j rule: tiles.induct)
  case (2 a p w rs b)
  from "2.prems"(1) have t: "tiles (p + w) rs b"
    by auto
  from "2.prems" obtain j' where j: "j = Suc j'" and j': "j' < length rs"
    by (cases j) simp_all
  show ?case
  proof (cases i)
    case 0
    with j tiles_start_ge [OF t j'] show ?thesis by simp
  next
    case (Suc i')
    with "2.prems" j have "i' < j'" by simp
    from "2.IH" [OF t this j'] Suc j show ?thesis by simp
  qed
qed simp

lemma tiles_segments:
  assumes "sorted ys" and "ys \<noteq> []" and "0 < naturalWidth img" and "0 < naturalHeight img"
  shows "tiles (axis_length d img * hd ys) (segments d img ys) (axis_length d img * last ys)"
  using assms(1,2)
proof (induction ys rule: induct_list012)
  case (3 x y zs)
  have L: "0 < axis_length d img"
    using assms(3,4) by (simp add: axis_length_def)
  from 3 have "x \<le> y" by simp
  then show ?case
    using 3 L by (auto simp add: emits_iff_less [OF assms(3,4)] algebra_simps)
qed simp_all

lemma sorted_hd_le:
  assumes "sorted ys" and "x \<in> set ys"
  shows "hd ys \<le> x"
  using assms by (cases ys) auto

lemma sorted_le_last:
  assumes "sorted ys" and "x \<in> set ys"
  shows "x \<le> last ys"
  using assms by (induction ys) (auto split: if_splits)

lemma boundaries_hd_last:
  fixes xs :: "real list"
  assumes "\<forall>x \<in> set xs. 0 \<le> x \<and> x \<le> 1"
  defines "B \<equiv> sort (0 # xs @ [1])"
  shows "hd B = 0" and "last B = 1"
proof -
  have sB: "sorted B" and set_B: "set B = insert 0 (insert 1 (set xs))"
    unfolding B_def by (auto simp del: sort_key_simps)
  have "length B = Suc (Suc (length xs))"
    unfolding B_def by (simp del: sort_key_simps)
  then have ne: "B \<noteq> []"
    by auto
  have "hd B \<in> set B" "last B \<in> set B"
    using ne by simp_all
  then have "0 \<le> hd B" "last B \<le> 1"
    using assms(1) set_B by auto
  moreover have "hd B \<le> 0"
    using sorted_hd_le [OF sB, of 0] set_B by simp
  moreover have "1 \<le> last B"
    using sorted_le_last [OF sB, of 1] set_B by simp
  ultimately show "hd B = 0" and "last B = 1"
    by simp_all
qed

text \<open>
  C3. For either direction, three finite cuts between 0 and 1 (in any order, so in
  particular for every ordered cut list) and an image of positive width and height,
  the rectangles drawn are those of a list of spans along the split axis that tile
  it exactly: the first span starts at 0, every span has a positive size, each next
  span starts where the one before ends, and the last one ends at the width
  (\<open>VERTICAL\<close>) or the height (\<open>HORIZONTAL\<close>) of the image. Hence no two spans
  overlap and the sizes add up to that width or height. When the cuts are strictly
  increasing and strictly between 0 and 1 there are four spans, with result indices
  0 to 3.
\<close>

theorem slices_tile_axis:
  assumes "cuts s = [Num a, Num b, Num c]"
    and "0 \<le> a" "a \<le> 1" "0 \<le> b" "b \<le> 1" "0 \<le> c" "c \<le> 1"
    and "0 < naturalWidth img" "0 < naturalHeight img"
  shows "\<exists>spans. drawn img s = map (rect_of_span (direction s) img) spans
      \<and> tiles 0 spans (axis_length (direction s) img)
      \<and> (\<forall>i j. i < j \<and> j < length spans \<longrightarrow>
            fst (spans ! i) + snd (spans ! i) \<le> fst (spans ! j))
      \<and> sum_list (map snd spans) = axis_length (direction s) img
      \<and> (0 < a \<and> a < b \<and> b < c \<and> c < 1 \<longrightarrow>
            length spans = 4 \<and> map id_result (newResults img s) = [0, 1, 2, 3])"
proof -
  define d where "d = direction s"
  define B where "B = sort (0 # [a, b, c] @ [1])"
  have sB: "sorted B"
    unfolding B_def by (simp del: sort_key_simps)
  have "length B = 5"
    unfolding B_def by (simp del: sort_key_simps)
  then have ne: "B \<noteq> []"
    by auto
  have hl: "hd B = 0" "last B = 1"
  proof -
    have "\<forall>x \<in> set [a, b, c]. 0 \<le> x \<and> x \<le> 1"
      using assms(2-7) by simp
    from boundaries_hd_last [OF this] show "hd B = 0" and "last B = 1"
      unfolding B_def by blast+
  qed
  have sc: "sortedCuts (cuts s) = map Num B"
    using sortedCuts_Num [of "[a, b, c]"] by (simp add: assms(1) B_def)
  have dr: "drawn img s = map (rect_of_span d img) (segments d img B)"
    by (simp add: drawn_def slices_def sc slice_loop_segments d_def)
  have t: "tiles 0 (segments d img B) (axis_length d img)"
    using tiles_segments [OF sB ne assms(8,9), of d] by (simp add: hl)
  have su: "sum_list (map snd (segments d img B)) = axis_length d img"
    using tiles_sum [OF t] by simp
  have four: "length (segments d img B) = 4 \<and> map id_result (newResults img s) = [0, 1, 2, 3]"
    if "0 < a \<and> a < b \<and> b < c \<and> c < 1"
  proof -
    from that have B: "B = [0, a, b, c, 1]"
      by (simp add: B_def)
    have "map id_result (newResults img s) = [0, 1, 2, 3]"
      using that slice_loop_ids [of d img 0 B]
      by (simp add: B newResults_def slices_def sc d_def comp_def upt_conv_Cons
          emits_iff_less [OF assms(8,9)] del: upt_Suc)
    moreover have "length (segments d img B) = 4"
      using that by (simp add: B emits_iff_less [OF assms(8,9)])
    ultimately show ?thesis
      by simp
  qed
  show ?thesis
  proof (intro exI conjI impI allI)
    show "drawn img s = map (rect_of_span (direction s) img) (segments (direction s) img B)"
      using dr by (simp add: d_def)
    show "tiles 0 (segments (direction s) img B) (axis_length (direction s) img)"
      using t by (simp add: d_def)
    show "fst (segments (direction s) img B ! i) + snd (segments (direction s) img B ! i)
            \<le> fst (segments (direction s) img B ! j)"
      if "i < j \<and> j < length (segments (direction s) img B)" for i j
      using tiles_no_overlap [OF t, of i j] that by (simp add: d_def)
    show "sum_list (map snd (segments (direction s) img B)) = axis_length (direction s) img"
      using su by (simp add: d_def)
    show "length (segments (direction s) img B) = 4"
      if "0 < a \<and> a < b \<and> b < c \<and> c < 1"
      using four [OF that] by (simp add: d_def)
    show "map id_result (newResults img s) = [0, 1, 2, 3]"
      if "0 < a \<and> a < b \<and> b < c \<and> c < 1"
      using four [OF that] by simp
  qed
qed

theorem slices_tile_axis_witness:
  "cuts initial_editor = [Num 0.25, Num 0.5, Num 0.75]
   \<and> (0::real) \<le> 0.25 \<and> (0.25::real) \<le> 1 \<and> (0::real) \<le> 0.5 \<and> (0.5::real) \<le> 1
   \<and> (0::real) \<le> 0.75 \<and> (0.75::real) \<le> 1
   \<and> 0 < naturalWidth sample_image \<and> 0 < naturalHeight sample_image
   \<and> (\<exists>spans. drawn sample_image initial_editor = map (rect_of_span VERTICAL sample_image) spans
        \<and> tiles 0 spans 400 \<and> sum_list (map snd spans) = 400 \<and> length spans = 4)"
proof -
  have c: "cuts initial_editor = [Num 0.25, Num 0.5, Num 0.75]"
    by (simp add: initial_editor_def initial_cuts_def)
  have wh: "0 < naturalWidth sample_image" "0 < naturalHeight sample_image"
    by (simp_all add: sample_image_def)
  have d: "direction initial_editor = VERTICAL" and L: "axis_length VERTICAL sample_image = 400"
    by (simp_all add: initial_editor_def axis_length_def sample_image_def)
  from slices_tile_axis [OF c _ _ _ _ _ _ wh]
  obtain spans where "drawn sample_image initial_editor = map (rect_of_span VERTICAL sample_image) spans"
    and "tiles 0 spans 400" and "sum_list (map snd spans) = 400" and "length spans = 4"
    unfolding d L by auto
  then show ?thesis
    using c wh by auto
qed

section \<open>Segments without size\<close>

lemma newResults_ids:
  assumes "cuts s = [Num a, Num b, Num c]"
  shows "map id_result (newResults img s) =
           filter (\<lambda>k. emits (direction s) img (sort [0, a, b, c, 1] ! k) (sort [0, a, b, c, 1] ! Suc k))
             [0..<4]"
proof -
  define B where "B = sort (0 # [a, b, c] @ [1])"
  have sc: "sortedCuts (cuts s) = map Num B"
    using sortedCuts_Num [of "[a, b, c]"] by (simp add: assms B_def)
  have len: "length B = 5"
    by (simp add: B_def del: sort_key_simps)
  have "map id_result (newResults img s) =
      filter (\<lambda>k. emits (direction s) img (B ! k) (B ! Suc k)) [0..<4]"
    using slice_loop_ids [of "direction s" img 0 B]
    by (simp add: newResults_def slices_def sc len comp_def del: upt_Suc)
  then show ?thesis
    by (simp add: B_def del: sort_key_simps upt_Suc)
qed

text \<open>
  C6. For three finite cuts, with \<open>B\<close> the sorted boundaries 0, the cuts, 1: a pass
  that has its image and its context runs to the end and hands over its results; a
  segment \<open>k\<close> with \<open>B[k+1] - B[k] \<le> 0\<close> gives no result; on an image of positive
  width and height every segment of positive size still gives its result; and as
  soon as one segment has a size that is not positive, fewer than four results are
  handed over.
\<close>

theorem degenerate_segments_skipped:
  assumes "cuts s = [Num a, Num b, Num c]"
  shows "sortedCuts (cuts s) = map Num (sort [0, a, b, c, 1])
     \<and> generateSlices (Some img) True s =
         SetIsProcessing True # (if \<not> complete img then [AwaitLoad] else [])
           @ [ResultsGenerated (newResults img s), SetIsProcessing False]
     \<and> (\<forall>k<4. sort [0, a, b, c, 1] ! Suc k - sort [0, a, b, c, 1] ! k \<le> 0 \<longrightarrow>
           k \<notin> id_result ` set (newResults img s))
     \<and> (\<forall>k<4. 0 < sort [0, a, b, c, 1] ! Suc k - sort [0, a, b, c, 1] ! k
             \<and> 0 < naturalWidth img \<and> 0 < naturalHeight img \<longrightarrow>
           k \<in> id_result ` set (newResults img s))
     \<and> ((\<exists>k<4. sort [0, a, b, c, 1] ! Suc k - sort [0, a, b, c, 1] ! k \<le> 0) \<longrightarrow>
           length (newResults img s) < 4)"
proof -
  define B where "B = sort [0, a, b, c, 1]"
  define P where "P = (\<lambda>k. emits (direction s) img (B ! k) (B ! Suc k))"
  have ids: "map id_result (newResults img s) = filter P [0..<4]"
    unfolding P_def B_def by (rule newResults_ids [OF assms])
  have set_ids: "id_result ` set (newResults img s) = {k. k < 4 \<and> P k}"
    using arg_cong [OF ids, of set] by (auto simp del: upt_Suc)
  have "sortedCuts (cuts s) = map Num B"
    using sortedCuts_Num [of "[a, b, c]"] by (simp add: assms B_def)
  moreover have "generateSlices (Some img) True s =
         SetIsProcessing True # (if \<not> complete img then [AwaitLoad] else [])
           @ [ResultsGenerated (newResults img s), SetIsProcessing False]"
    by (simp add: generateSlices_def)
  moreover have "\<forall>k<4. B ! Suc k - B ! k \<le> 0 \<longrightarrow> k \<notin> id_result ` set (newResults img s)"
    by (simp add: set_ids P_def not_emits)
  moreover have "\<forall>k<4. 0 < B ! Suc k - B ! k \<and> 0 < naturalWidth img \<and> 0 < naturalHeight img \<longrightarrow>
           k \<in> id_result ` set (newResults img s)"
    by (simp add: set_ids P_def emits_positive)
  moreover have "(\<exists>k<4. B ! Suc k - B ! k \<le> 0) \<longrightarrow> length (newResults img s) < 4"
  proof
    assume "\<exists>k<4. B ! Suc k - B ! k \<le> 0"
    then obtain k where "k < 4" and "B ! Suc k - B ! k \<le> 0"
      by blast
    then have "k \<in> set [0..<4]" and "\<not> P k"
      by (simp_all add: P_def not_emits del: upt_Suc)
    then have "length (filter P [0..<4]) < length [0..<4]"
      by (rule length_filter_less)
    then show "length (newResults img s) < 4"
      using arg_cong [OF ids, of length] by (simp del: upt_Suc)
  qed
  ultimately show ?thesis
    unfolding B_def by blast
qed

theorem degenerate_segments_skipped_witness:
  "cuts doubled_cut = [Num 0.5, Num 0.5, Num 0.75]
   \<and> (1::nat) < 4 \<and> sort [0, 0.5, 0.5, 0.75, 1 :: real] ! Suc 1 - sort [0, 0.5, 0.5, 0.75, 1] ! 1 \<le> 0
   \<and> 1 \<notin> id_result ` set (newResults sample_image doubled_cut)
   \<and> (0::nat) < 4 \<and> 0 < sort [0, 0.5, 0.5, 0.75, 1 :: real] ! Suc 0 - sort [0, 0.5, 0.5, 0.75, 1] ! 0
   \<and> 0 < naturalWidth sample_image \<and> 0 < naturalHeight sample_image
   \<and> 0 \<in> id_result ` set (newResults sample_image doubled_cut)
   \<and> length (newResults sample_image doubled_cut) < 4"
proof -
  have c: "cuts doubled_cut = [Num 0.5, Num 0.5, Num 0.75]"
    by (simp add: doubled_cut_def)
  have z: "sort [0, 0.5, 0.5, 0.75, 1 :: real] ! Suc 1 - sort [0, 0.5, 0.5, 0.75, 1] ! 1 \<le> 0"
    and p: "0 < sort [0, 0.5, 0.5, 0.75, 1 :: real] ! Suc 0 - sort [0, 0.5, 0.5, 0.75, 1] ! 0"
    and wh: "0 < naturalWidth sample_image" "0 < naturalHeight sample_image"
    by (simp_all add: sample_image_def)
  note t = degenerate_segments_skipped [OF c, of sample_image]
  have "1 \<notin> id_result ` set (newResults sample_image doubled_cut)"
    using t z by (metis one_less_numeral_iff semiring_norm(76))
  moreover have "0 \<in> id_result ` set (newResults sample_image doubled_cut)"
    using t p wh by (metis zero_less_numeral)
  moreover have "length (newResults sample_image doubled_cut) < 4"
    using t z by (metis one_less_numeral_iff semiring_norm(76))
  ultimately show ?thesis
    using c z p wh by simp
qed

section \<open>Facts about rounding to binary64\<close>

lemma binade_down_numeral:
  "binade_down (numeral n) b x = (if b \<le> x then b else binade_down (pred_numeral n) (b / 2) x)"
  by (simp add: numeral_eq_Suc)


lemma binade_unit:
  assumes "1 / 32 \<le> x" and "x < 1"
  shows "binade x = (if 1 / 2 \<le> x then 1 / 2 else if 1 / 4 \<le> x then 1 / 4
           else if 1 / 8 \<le> x then 1 / 8 else if 1 / 16 \<le> x then 1 / 16 else 1 / 32)"
  using assms by (simp add: binade_def binade_down_numeral)

lemma two_le_huge: "(2::real) \<le> 2 ^ 1024"
  using power_increasing [of 1 1024 "2::real"] by simp

lemma binary64_small:
  assumes "\<bar>fl x\<bar> < 2"
  shows "binary64 (Num x) = Num (fl x)"
  using assms two_le_huge by (simp del: power_numeral)

lemma fl_padding: "fl (1 / 20) = 3602879701896397 / 2 ^ 56"
  by (simp add: fl_def ulp_def binade_def binade_down_numeral round_even_def)

lemma padding_value: "padding = Num (3602879701896397 / 2 ^ 56)"
  unfolding padding_def using binary64_small [of "1 / 20"] by (simp add: fl_padding)


lemma round_even_err: "\<bar>of_int (round_even y) - y\<bar> \<le> 1 / 2"
  unfolding round_even_def Let_def by (auto simp add: abs_le_iff)

lemma round_even_le:
  assumes "y \<le> of_int n"
  shows "round_even y \<le> n"
proof -
  have "\<lfloor>y\<rfloor> \<le> n"
    using assms by (simp add: floor_le_iff)
  moreover have "\<lfloor>y\<rfloor> + 1 \<le> n" if "1 / 2 \<le> y - of_int \<lfloor>y\<rfloor>"
  proof -
    from that have "of_int \<lfloor>y\<rfloor> < y" by linarith
    with assms have "of_int \<lfloor>y\<rfloor> < (of_int n :: real)" by linarith
    then show ?thesis by simp
  qed
  ultimately show ?thesis
    unfolding round_even_def Let_def by auto
qed

lemma round_even_ge:
  assumes "of_int n \<le> y"
  shows "n \<le> round_even y"
proof -
  have "n \<le> \<lfloor>y\<rfloor>"
    using assms by (simp add: le_floor_iff)
  then show ?thesis
    unfolding round_even_def Let_def by auto
qed

lemma round_even_mono:
  assumes "x \<le> y"
  shows "round_even x \<le> round_even y"
proof (cases "\<lfloor>x\<rfloor> = \<lfloor>y\<rfloor>")
  case True
  then show ?thesis
    using assms unfolding round_even_def Let_def by auto
next
  case False
  with assms have "\<lfloor>x\<rfloor> + 1 \<le> \<lfloor>y\<rfloor>"
    using floor_mono [OF assms] by linarith
  moreover have "round_even x \<le> \<lfloor>x\<rfloor> + 1"
    unfolding round_even_def Let_def by auto
  moreover have "\<lfloor>y\<rfloor> \<le> round_even y"
    unfolding round_even_def Let_def by auto
  ultimately show ?thesis by linarith
qed

lemma binade_unit_props:
  assumes "1 / 32 \<le> x" and "x < 1"
  shows "binade x \<in> {1 / 32, 1 / 16, 1 / 8, 1 / 4, 1 / 2}"
    and "binade x \<le> x" and "x < 2 * binade x"
  using assms by (simp_all add: binade_unit)

lemma fl_err:
  assumes "1 / 32 \<le> x" and "x < 1"
  shows "\<bar>fl x - x\<bar> \<le> 1 / 2 ^ 54"
proof -
  define u where "u = ulp x"
  have u: "0 < u" "u \<le> 1 / 2 ^ 53"
    using binade_unit_props(1) [OF assms] unfolding u_def ulp_def by auto
  have "\<bar>of_int (round_even (x / u)) - x / u\<bar> * u \<le> 1 / 2 * u"
    using round_even_err [of "x / u"] u(1) by (simp add: mult_right_mono)
  moreover have "(of_int (round_even (x / u)) - x / u) * u = fl x - x"
    using u(1) by (simp add: fl_def u_def left_diff_distrib)
  then have "\<bar>of_int (round_even (x / u)) - x / u\<bar> * u = \<bar>fl x - x\<bar>"
    using u(1) by (metis abs_mult abs_of_pos)
  ultimately show ?thesis
    using u(2) by simp
qed

lemma fl_near:
  assumes "1 / 32 \<le> x" and "x < 1"
  shows "x - 1 / 2 ^ 54 \<le> fl x" and "fl x \<le> x + 1 / 2 ^ 54"
  using fl_err [OF assms] by (simp_all only: abs_le_iff) linarith+

lemma fl_le_top:
  assumes "1 / 32 \<le> x" and "x < 1"
  shows "fl x \<le> 2 * binade x"
proof -
  define u where "u = ulp x"
  have u: "0 < u" and b: "2 * binade x = of_int (2 ^ 53) * u"
    using binade_unit_props(1) [OF assms] unfolding u_def ulp_def by auto
  have "x / u \<le> of_int (2 ^ 53)"
    using binade_unit_props(3) [OF assms] u b by (simp add: field_simps)
  then have "round_even (x / u) \<le> 2 ^ 53"
    by (rule round_even_le)
  then have "of_int (round_even (x / u)) * u \<le> of_int (2 ^ 53) * u"
    using u by (simp only: mult_le_cancel_right_pos of_int_le_iff)
  then show ?thesis
    by (simp add: fl_def b flip: u_def)
qed

lemma fl_ge_bot:
  assumes "1 / 32 \<le> x" and "x < 1"
  shows "binade x \<le> fl x"
proof -
  define u where "u = ulp x"
  have u: "0 < u" and b: "binade x = of_int (2 ^ 52) * u"
    using binade_unit_props(1) [OF assms] unfolding u_def ulp_def by auto
  have "of_int (2 ^ 52) \<le> x / u"
    using binade_unit_props(2) [OF assms] u b by (simp add: field_simps)
  then have "2 ^ 52 \<le> round_even (x / u)"
    by (rule round_even_ge)
  then have "of_int (2 ^ 52) * u \<le> of_int (round_even (x / u)) * u"
    using u by (simp only: mult_le_cancel_right_pos of_int_le_iff)
  then show ?thesis
    by (simp add: fl_def b flip: u_def)
qed

lemma fl_mono_unit:
  assumes "1 / 32 \<le> x" and "x \<le> y" and "y < 1"
  shows "fl x \<le> fl y"
proof -
  have rx: "1 / 32 \<le> x" "x < 1" and ry: "1 / 32 \<le> y" "y < 1"
    using assms by simp_all
  note px = binade_unit_props [OF rx] and py = binade_unit_props [OF ry]
  consider "binade x = binade y" | "2 * binade x \<le> binade y" | "2 * binade y \<le> binade x"
    using px(1) py(1) by auto
  then show ?thesis
  proof cases
    case 1
    then have u: "ulp x = ulp y" and "0 < ulp y"
      using py(1) by (auto simp add: ulp_def)
    then have "x / ulp y \<le> y / ulp y"
      using assms(2) by (simp add: divide_right_mono)
    then have "round_even (x / ulp y) \<le> round_even (y / ulp y)"
      by (rule round_even_mono)
    then show ?thesis
      using \<open>0 < ulp y\<close> by (simp add: fl_def u)
  next
    case 2
    then show ?thesis
      using fl_le_top [OF rx] fl_ge_bot [OF ry] by linarith
  next
    case 3
    then show ?thesis
      using px(2) py(3) assms(2) by linarith
  qed
qed

lemma ulp_unit:
  assumes "1 / 32 \<le> x" and "x < 1"
  shows "\<exists>k::int. ulp x = of_int k / 2 ^ 57"
proof -
  from binade_unit_props(1) [OF assms]
  consider "binade x = 1 / 32" | "binade x = 1 / 16" | "binade x = 1 / 8"
    | "binade x = 1 / 4" | "binade x = 1 / 2"
    by auto
  then show ?thesis
  proof cases
    case 1 then show ?thesis by (intro exI [of _ 1]) (simp add: ulp_def)
  next
    case 2 then show ?thesis by (intro exI [of _ 2]) (simp add: ulp_def)
  next
    case 3 then show ?thesis by (intro exI [of _ 4]) (simp add: ulp_def)
  next
    case 4 then show ?thesis by (intro exI [of _ 8]) (simp add: ulp_def)
  next
    case 5 then show ?thesis by (intro exI [of _ 16]) (simp add: ulp_def)
  qed
qed

lemma ulp_unit56:
  assumes "1 / 16 \<le> x" and "x < 1"
  shows "\<exists>k::int. ulp x = of_int k / 2 ^ 56"
proof -
  have r: "1 / 32 \<le> x"
    using assms(1) by simp
  from binade_unit_props(1,3) [OF r assms(2)] assms(1)
  consider "binade x = 1 / 16" | "binade x = 1 / 8" | "binade x = 1 / 4" | "binade x = 1 / 2"
    by auto
  then show ?thesis
  proof cases
    case 1 then show ?thesis by (intro exI [of _ 1]) (simp add: ulp_def)
  next
    case 2 then show ?thesis by (intro exI [of _ 2]) (simp add: ulp_def)
  next
    case 3 then show ?thesis by (intro exI [of _ 4]) (simp add: ulp_def)
  next
    case 4 then show ?thesis by (intro exI [of _ 8]) (simp add: ulp_def)
  qed
qed

lemma fl_grid57:
  assumes "fl x = x" and "1 / 32 \<le> x" and "x < 1"
  shows "\<exists>n::int. x = of_int n / 2 ^ 57"
proof -
  define R where "R = round_even (x / ulp x)"
  obtain k :: int where k: "ulp x = of_int k / 2 ^ 57"
    using ulp_unit [OF assms(2,3)] by blast
  have "x = of_int R * ulp x"
    using assms(1) by (simp add: fl_def R_def)
  then have "x = of_int (R * k) / 2 ^ 57"
    unfolding k by simp
  then show ?thesis ..
qed

lemma fl_grid56:
  assumes "fl x = x" and "1 / 16 \<le> x" and "x < 1"
  shows "\<exists>n::int. x = of_int n / 2 ^ 56"
proof -
  define R where "R = round_even (x / ulp x)"
  obtain k :: int where k: "ulp x = of_int k / 2 ^ 56"
    using ulp_unit56 [OF assms(2,3)] by blast
  have "x = of_int R * ulp x"
    using assms(1) by (simp add: fl_def R_def)
  then have "x = of_int (R * k) / 2 ^ 56"
    unfolding k by simp
  then show ?thesis ..
qed

lemma fl_small:
  assumes "1 / 32 \<le> x" and "x < 1"
  shows "\<bar>fl x\<bar> < 2"
  using fl_ge_bot [OF assms] fl_le_top [OF assms] binade_unit_props(1) [OF assms] by auto

lemma binary64_unit:
  assumes "1 / 32 \<le> x" and "x < 1"
  shows "binary64 (Num x) = Num (fl x)"
  by (rule binary64_small [OF fl_small [OF assms]])


lemma pad_value: "pad = 3602879701896397 / 2 ^ 56"
  by (simp add: pad_def fl_padding)

lemma padding_pad: "padding = Num pad"
  by (simp add: padding_value pad_value)

lemma pad_bounds: "1 / 20 \<le> pad" "pad < 1 / 16"
  by (simp_all add: pad_value)

lemma fl_pad: "fl pad = pad"
  by (simp add: pad_value fl_def ulp_def binade_def binade_down_numeral round_even_def)

lemma fl_one_minus_pad: "fl (1 - pad) = 8556839292003942 / 2 ^ 53"
  by (simp add: pad_value fl_def ulp_def binade_def binade_down_numeral round_even_def)





lemma add64_unit:
  assumes "1 / 32 \<le> x + y" and "x + y < 1"
  shows "js_add64 (Num x) (Num y) = Num (fl (x + y))"
  using binary64_unit [OF assms] by (simp add: js_add64_def js_add_def)

lemma sub64_unit:
  assumes "1 / 32 \<le> x - y" and "x - y < 1"
  shows "js_sub64 (Num x) (Num y) = Num (fl (x - y))"
  using binary64_unit [OF assms] by (simp add: js_sub64_def js_sub_def)

lemma computeBounds_0:
  assumes "1 / 32 \<le> b - pad" and "b - pad < 1"
  shows "computeBounds [Num a, Num b, Num c] 0 = (Num pad, Num (fl (b - pad)))"
proof -
  have "js_add64 (Num 0) (Num pad) = Num pad"
    using add64_unit [of 0 pad] pad_bounds by (simp add: fl_pad)
  then show ?thesis
    using sub64_unit [OF assms]
    by (simp add: computeBounds_def padding_pad js_index_def)
qed

lemma computeBounds_1:
  assumes "1 / 32 \<le> a + pad" and "a + pad < 1" and "1 / 32 \<le> c - pad" and "c - pad < 1"
  shows "computeBounds [Num a, Num b, Num c] 1 = (Num (fl (a + pad)), Num (fl (c - pad)))"
  using add64_unit [OF assms(1,2)] sub64_unit [OF assms(3,4)]
  by (simp add: computeBounds_def padding_pad js_index_def)

lemma computeBounds_2:
  assumes "1 / 32 \<le> b + pad" and "b + pad < 1"
  shows "computeBounds [Num a, Num b, Num c] 2 = (Num (fl (b + pad)), Num (fl (1 - pad)))"
proof -
  have "js_sub64 (Num 1) (Num pad) = Num (fl (1 - pad))"
    using sub64_unit [of 1 pad] pad_bounds by simp
  then show ?thesis
    using add64_unit [OF assms]
    by (simp add: computeBounds_def padding_pad js_index_def)
qed

text \<open>
  Where the spacing of the binary64 values enters: cuts one tenth apart are twice
  the padding apart, although the padding exceeds one twentieth.
\<close>

lemma tenth_apart:
  assumes "fl a = a" and "fl c = c" and "1 / 32 \<le> a" and "c < 1" and "a + 1 / 10 \<le> c"
  shows "a + pad \<le> c - pad"
proof -
  have rc: "1 / 32 \<le> c" and ra: "a < 1"
    using assms by simp_all
  obtain na :: int where na: "a = of_int na / 2 ^ 57"
    using fl_grid57 [OF assms(1,3) ra] by blast
  obtain nc :: int where nc: "c = of_int nc / 2 ^ 57"
    using fl_grid57 [OF assms(2) rc assms(4)] by blast
  have "(of_int (2 ^ 57) :: real) \<le> of_int (10 * (nc - na))"
    using assms(5) unfolding na nc by (simp add: field_simps)
  then have "2 ^ 57 \<le> 10 * (nc - na)"
    by (simp only: of_int_le_iff)
  then have "14411518807585588 \<le> nc - na"
    by simp
  then have "(of_int 14411518807585588 :: real) \<le> of_int (nc - na)"
    by (simp only: of_int_le_iff)
  then show ?thesis
    unfolding na nc pad_value by (simp add: field_simps)
qed

lemma tenth_above:
  assumes "fl b = b" and "1 / 10 \<le> b" and "b < 1"
  shows "pad \<le> b - pad"
proof -
  have r: "1 / 16 \<le> b"
    using assms(2) by simp
  obtain n :: int where n: "b = of_int n / 2 ^ 56"
    using fl_grid56 [OF assms(1) r assms(3)] by blast
  have "(of_int (2 ^ 56) :: real) \<le> of_int (10 * n)"
    using assms(2) unfolding n by (simp add: field_simps)
  then have "2 ^ 56 \<le> 10 * n"
    by (simp only: of_int_le_iff)
  then have "7205759403792794 \<le> n"
    by simp
  then have "(of_int 7205759403792794 :: real) \<le> of_int n"
    by (simp only: of_int_le_iff)
  then show ?thesis
    unfolding n pad_value by (simp add: field_simps)
qed

lemma tenth_below:
  assumes "fl b = b" and "1 / 16 \<le> b" and "b \<le> 9 / 10"
  shows "b + pad \<le> 1 - pad"
proof -
  have r: "b < 1"
    using assms(3) by simp
  obtain n :: int where n: "b = of_int n / 2 ^ 56"
    using fl_grid56 [OF assms(1,2) r] by blast
  have "(of_int (10 * n) :: real) \<le> of_int (9 * 2 ^ 56)"
    using assms(3) unfolding n by (simp add: field_simps)
  then have "10 * n \<le> 9 * 2 ^ 56"
    by (simp only: of_int_le_iff)
  then have "n \<le> 64851834634135142"
    by simp
  then have "(of_int n :: real) \<le> of_int 64851834634135142"
    by (simp only: of_int_le_iff)
  then show ?thesis
    unfolding n pad_value by (simp add: field_simps)
qed

section \<open>The limits of a cut\<close>

lemma three_cases:
  assumes "i < (3::nat)"
  obtains "i = 0" | "i = 1" | "i = 2"
  using assms by arith

text \<open>
  The limits of a valid list of binary64 cuts: what they are, that they do not cross,
  and that every value between them keeps the gap invariant up to \<open>2^-54\<close>.
\<close>

lemma limits_0:
  assumes "gap_invariant [Num a, Num b, Num c]" and "list_all is_binary64 [Num a, Num b, Num c]"
  shows "computeBounds [Num a, Num b, Num c] 0 = (Num pad, Num (fl (b - pad)))"
    and "pad \<le> fl (b - pad)"
    and "pad \<le> v \<Longrightarrow> v \<le> fl (b - pad) \<Longrightarrow>
           gap_invariant_within (1 / 2 ^ 54) [Num v, Num b, Num c]"
proof -
  from assms have g: "1 / 20 \<le> a" "a + 1 / 20 \<le> b" "b + 1 / 20 \<le> c" "c \<le> 19 / 20"
    and d: "fl b = b"
    by simp_all
  have t: "pad \<le> b - pad"
    using tenth_above [OF d] g by simp
  have r: "1 / 32 \<le> b - pad" "b - pad < 1"
    using t pad_bounds g by simp_all
  show "computeBounds [Num a, Num b, Num c] 0 = (Num pad, Num (fl (b - pad)))"
    by (rule computeBounds_0 [OF r])
  show "pad \<le> fl (b - pad)"
    using fl_mono_unit [OF _ t r(2)] pad_bounds by (simp add: fl_pad)
  show "gap_invariant_within (1 / 2 ^ 54) [Num v, Num b, Num c]"
    if "pad \<le> v" "v \<le> fl (b - pad)"
    using that fl_near [OF r] pad_bounds g by simp
qed

lemma limits_1:
  assumes "gap_invariant [Num a, Num b, Num c]" and "list_all is_binary64 [Num a, Num b, Num c]"
  shows "computeBounds [Num a, Num b, Num c] 1 = (Num (fl (a + pad)), Num (fl (c - pad)))"
    and "fl (a + pad) \<le> fl (c - pad)"
    and "fl (a + pad) \<le> v \<Longrightarrow> v \<le> fl (c - pad) \<Longrightarrow>
           gap_invariant_within (1 / 2 ^ 54) [Num a, Num v, Num c]"
proof -
  from assms have g: "1 / 20 \<le> a" "a + 1 / 20 \<le> b" "b + 1 / 20 \<le> c" "c \<le> 19 / 20"
    and d: "fl a = a" "fl c = c"
    by simp_all
  have t: "a + pad \<le> c - pad"
    using tenth_apart [OF d] g by simp
  have ra: "1 / 32 \<le> a + pad" "a + pad < 1" and rc: "1 / 32 \<le> c - pad" "c - pad < 1"
    using t pad_bounds g by simp_all
  show "computeBounds [Num a, Num b, Num c] 1 = (Num (fl (a + pad)), Num (fl (c - pad)))"
    by (rule computeBounds_1 [OF ra rc])
  show "fl (a + pad) \<le> fl (c - pad)"
    by (rule fl_mono_unit [OF ra(1) t rc(2)])
  show "gap_invariant_within (1 / 2 ^ 54) [Num a, Num v, Num c]"
    if "fl (a + pad) \<le> v" "v \<le> fl (c - pad)"
    using that fl_near [OF ra] fl_near [OF rc] pad_bounds g by simp
qed

lemma limits_2:
  assumes "gap_invariant [Num a, Num b, Num c]" and "list_all is_binary64 [Num a, Num b, Num c]"
  shows "computeBounds [Num a, Num b, Num c] 2 = (Num (fl (b + pad)), Num (fl (1 - pad)))"
    and "fl (b + pad) \<le> fl (1 - pad)"
    and "fl (b + pad) \<le> v \<Longrightarrow> v \<le> fl (1 - pad) \<Longrightarrow>
           gap_invariant_within (1 / 2 ^ 54) [Num a, Num b, Num v]"
proof -
  from assms have g: "1 / 20 \<le> a" "a + 1 / 20 \<le> b" "b + 1 / 20 \<le> c" "c \<le> 19 / 20"
    and d: "fl b = b"
    by simp_all
  have t: "b + pad \<le> 1 - pad"
    using tenth_below [OF d] g by simp
  have r: "1 / 32 \<le> b + pad" "b + pad < 1" and r1: "1 - pad < 1"
    using t pad_bounds g by simp_all
  show "computeBounds [Num a, Num b, Num c] 2 = (Num (fl (b + pad)), Num (fl (1 - pad)))"
    by (rule computeBounds_2 [OF r])
  show "fl (b + pad) \<le> fl (1 - pad)"
    by (rule fl_mono_unit [OF r(1) t r1])
  show "gap_invariant_within (1 / 2 ^ 54) [Num a, Num b, Num v]"
    if "fl (b + pad) \<le> v" "v \<le> fl (1 - pad)"
    using that fl_near [OF r] pad_bounds g by (simp add: fl_one_minus_pad)
qed



text \<open>
  C4. For a list of three binary64 cuts that satisfies the gap invariant and an index
  \<open>i\<close> among 0, 1, 2, the limits are the finite numbers \<open>cut[i-1] + 0.05\<close> (or
  \<open>0.05\<close> for the first cut) and \<open>cut[i+1] - 0.05\<close> (or \<open>1 - 0.05\<close> for the last
  one), where \<open>0.05\<close> is the binary64 literal \<open>pad\<close> and each sum or difference is
  the binary64 one; and the lower limit is at most the upper one.
\<close>

theorem computeBounds_limits:
  assumes "gap_invariant (map Num xs)" and "list_all is_binary64 (map Num xs)" and "i < 3"
  shows "computeBounds (map Num xs) (int i) =
           (Num (if i > 0 then fl (xs ! (i - 1) + pad) else pad),
            Num (if i < 2 then fl (xs ! (i + 1) - pad) else fl (1 - pad)))
         \<and> (if i > 0 then fl (xs ! (i - 1) + pad) else pad)
              \<le> (if i < 2 then fl (xs ! (i + 1) - pad) else fl (1 - pad))"
proof -
  from assms(1) obtain a b c where xs: "xs = [a, b, c]"
    by (cases "map Num xs" rule: gap_invariant.cases) auto
  note g = assms(1,2) [unfolded xs, simplified]
  have g': "gap_invariant [Num a, Num b, Num c]" "list_all is_binary64 [Num a, Num b, Num c]"
    using g by simp_all
  from assms(3) show ?thesis
  proof (cases i rule: three_cases)
    case 1
    then show ?thesis
      using limits_0(1,2) [OF g'] by (simp add: xs)
  next
    case 2
    then show ?thesis
      using limits_1(1,2) [OF g'] by (simp add: xs)
  next
    case 3
    then show ?thesis
      using limits_2(1,2) [OF g'] by (simp add: xs)
  qed
qed

lemma fl_quarter: "fl (1 / 4) = 1 / 4" "fl (1 / 2) = 1 / 2" "fl (3 / 4) = 3 / 4"
  by (simp_all add: fl_def ulp_def binade_def binade_down_numeral round_even_def)

lemma initial_cuts_valid:
  "gap_invariant initial_cuts" "list_all is_binary64 initial_cuts"
  by (simp_all add: initial_cuts_def fl_quarter)

lemma fl_default_limits:
  "fl (1 / 2 - pad) = 8106479329266893 / 2 ^ 54"
  "fl (1 / 4 + pad) = 5404319552844595 / 2 ^ 54"
  "fl (3 / 4 - pad) = 6305039478318694 / 2 ^ 53"
  by (simp_all add: pad_value fl_def ulp_def binade_def binade_down_numeral round_even_def)

theorem computeBounds_limits_witness:
  "gap_invariant (map Num [0.25, 0.5, 0.75])
   \<and> list_all is_binary64 (map Num [0.25, 0.5, 0.75]) \<and> (1::nat) < 3
   \<and> computeBounds (map Num [0.25, 0.5, 0.75]) 1
       = (Num (5404319552844595 / 2 ^ 54), Num (6305039478318694 / 2 ^ 53))
   \<and> (5404319552844595 / 2 ^ 54 :: real) \<le> 6305039478318694 / 2 ^ 53"
  using computeBounds_limits [of "[0.25, 0.5, 0.75]" 1] initial_cuts_valid
  by (simp add: initial_cuts_def fl_default_limits)

section \<open>Moving a cut\<close>






section \<open>The pointer mapping divides without a guard\<close>



















end
